theory Spec2Isabelle
  imports Main "HOL-Library.AList"
begin

section \<open>Python values used by browscap.py\<close>

text \<open>
  Strings are \<^typ>\<open>string\<close>: the database is read as latin-1, so one character of a
  section name is one \<^typ>\<open>char\<close> and \<open>len\<close> is \<^const>\<open>length\<close>.

  A Python \<open>dict\<close> is an association list with distinct keys in insertion order:
  \<open>d[k] = v\<close> is \<^const>\<open>AList.update\<close> (an existing key keeps its place, a new key is
  appended), \<open>k in d\<close> and \<open>d[k]\<close> are \<^const>\<open>map_of\<close>.
\<close>

type_synonym props = "(string \<times> string) list"

text \<open>The exceptions the program raises itself or receives from the standard library.\<close>

datatype error =
    Exception string
  | NoSectionError string
  | NoOptionError string string
  | InterpolationDepthError string string
  | InterpolationSyntaxError string string
  | InterpolationMissingOptionError string string string
  | RecursionError
  | KeyError string
  | ReError string

text \<open>\<open>d.update(other)\<close>: the pairs of \<open>other\<close> are stored one by one, in order.\<close>

definition dict_update :: "('k \<times> 'v) list \<Rightarrow> ('k \<times> 'v) list \<Rightarrow> ('k \<times> 'v) list" where
  "dict_update d other = fold (\<lambda>kv acc. AList.update (fst kv) (snd kv) acc) other d"

text \<open>\<open>dict(pairs)\<close>.\<close>

definition dict_of :: "('k \<times> 'v) list \<Rightarrow> ('k \<times> 'v) list" where
  "dict_of pairs = dict_update [] pairs"

text \<open>
  \<open>s.replace(old, new)\<close> for a needle \<open>old\<close> of one character, the only way the
  program calls it: every occurrence of the character is replaced.
\<close>

definition str_replace :: "char \<Rightarrow> string \<Rightarrow> string \<Rightarrow> string" where
  "str_replace old new s = concat (map (\<lambda>x. if x = old then new else [x]) s)"

section \<open>The ConfigParser object\<close>

text \<open>
  The state of a \<open>ConfigParser\<close> after \<open>readfp\<close>: the options of the \<open>DEFAULT\<close>
  section and the table of the other sections in file order, each with its options
  (option names as the parser stored them). Reading the file is outside this
  development; the methods that \<open>browscap.py\<close> calls follow the module
  \<open>configparser\<close> of the standard library: option names go through \<open>optionxform\<close>,
  a section sees the \<open>DEFAULT\<close> options below its own, and \<open>get\<close> and \<open>items\<close>
  return values after \<open>%\<close> interpolation (\<open>BasicInterpolation\<close>), which can fail.
\<close>

record config =
  defaults :: props
  sections :: "(string \<times> props) list"

text \<open>\<open>str.lower\<close> on a character of latin-1.\<close>

definition lower_char :: "char \<Rightarrow> char" where
  "lower_char c =
     (let n = of_char c :: nat
      in if (65 \<le> n \<and> n \<le> 90) \<or> (192 \<le> n \<and> n \<le> 222 \<and> n \<noteq> 215) then char_of (n + 32) else c)"

definition optionxform :: "string \<Rightarrow> string" where
  "optionxform option = map lower_char option"

text \<open>
  \<open>BasicInterpolation._interpolate_some\<close>: \<open>%%\<close> stands for \<open>%\<close>, \<open>%(name)s\<close> for
  the value of the option \<open>name\<close>, itself interpolated when it contains \<open>%\<close>, and any
  other \<open>%\<close> is an error. The reference is read by the expression \<open>%\(([^)]+)\)s\<close>:
  \<open>ref_key\<close> is its group and \<open>ref_end\<close> what follows the group. The first argument
  counts the nested interpolations still allowed (ten in all).
\<close>

definition ref_key :: "string \<Rightarrow> string" where
  "ref_key r = takeWhile (\<lambda>x. x \<noteq> CHR '')'') r"

definition ref_end :: "string \<Rightarrow> string" where
  "ref_end r = dropWhile (\<lambda>x. x \<noteq> CHR '')'') r"

function interpolate_some :: "nat \<Rightarrow> string \<Rightarrow> string \<Rightarrow> props \<Rightarrow> string \<Rightarrow> error + string" where
  "interpolate_some levels option section d rest =
     (if levels = 0 then Inl (InterpolationDepthError option section)
      else
        (case rest of
           [] \<Rightarrow> Inr []
         | c # cs \<Rightarrow>
             if c \<noteq> CHR ''%'' then
               (case interpolate_some levels option section d cs of
                  Inl e \<Rightarrow> Inl e
                | Inr t \<Rightarrow> Inr (c # t))
             else
               (case cs of
                  [] \<Rightarrow> Inl (InterpolationSyntaxError option section)
                | c2 # r \<Rightarrow>
                    if c2 = CHR ''%'' then
                      (case interpolate_some levels option section d r of
                         Inl e \<Rightarrow> Inl e
                       | Inr t \<Rightarrow> Inr (CHR ''%'' # t))
                    else if c2 = CHR ''('' then
                      (if ref_key r = [] \<or> take 2 (ref_end r) \<noteq> '')s'' then
                         Inl (InterpolationSyntaxError option section)
                       else
                         (case map_of d (optionxform (ref_key r)) of
                            None \<Rightarrow>
                              Inl (InterpolationMissingOptionError option section
                                     (optionxform (ref_key r)))
                          | Some v \<Rightarrow>
                              (case (if CHR ''%'' \<in> set v
                                     then interpolate_some (levels - 1) option section d v
                                     else Inr v) of
                                 Inl e \<Rightarrow> Inl e
                               | Inr s1 \<Rightarrow>
                                   (case interpolate_some levels option section d
                                           (drop 2 (ref_end r)) of
                                      Inl e \<Rightarrow> Inl e
                                    | Inr s2 \<Rightarrow> Inr (s1 @ s2)))))
                    else Inl (InterpolationSyntaxError option section))))"
  by pat_completeness auto
termination
  apply (relation "measures [\<lambda>(levels, option, section, d, rest). levels,
                             \<lambda>(levels, option, section, d, rest). length rest]")
   apply (auto simp: ref_end_def)
  apply (rule le_less_trans [OF diff_le_self])
  apply (rule le_imp_less_Suc [OF le_SucI [OF length_dropWhile_le]])
  done

declare interpolate_some.simps [simp del]

definition before_get :: "string \<Rightarrow> string \<Rightarrow> string \<Rightarrow> props \<Rightarrow> error + string" where
  "before_get section option v d = interpolate_some 10 option section d v"

text \<open>The list comprehension of \<open>items\<close>: the values in order, up to the first failure.\<close>

fun interpolated :: "string \<Rightarrow> props \<Rightarrow> props \<Rightarrow> error + props" where
  "interpolated section d [] = Inr []"
| "interpolated section d (entry # rest) =
     (case before_get section (fst entry) (snd entry) d of
        Inl e \<Rightarrow> Inl e
      | Inr v \<Rightarrow>
          (case interpolated section d rest of
             Inl e \<Rightarrow> Inl e
           | Inr vs \<Rightarrow> Inr ((fst entry, v) # vs)))"

text \<open>
  The options a section sees: the \<open>DEFAULT\<close> options overlaid by its own. An unknown
  section raises \<open>NoSectionError\<close>, except for the default section itself.
\<close>

definition unify_values :: "config \<Rightarrow> string \<Rightarrow> error + props" where
  "unify_values cp section =
     (case map_of (sections cp) section of
        None \<Rightarrow>
          if section = ''DEFAULT'' then Inr (dict_update [] (defaults cp))
          else Inl (NoSectionError section)
      | Some opts \<Rightarrow> Inr (dict_update (dict_update [] (defaults cp)) opts))"

definition cp_items :: "config \<Rightarrow> string \<Rightarrow> error + props" where
  "cp_items cp section =
     (case unify_values cp section of
        Inl e \<Rightarrow> Inl e
      | Inr d \<Rightarrow> interpolated section d d)"

definition cp_get :: "config \<Rightarrow> string \<Rightarrow> string \<Rightarrow> error + string" where
  "cp_get cp section option =
     (case unify_values cp section of
        Inl e \<Rightarrow> Inl e
      | Inr d \<Rightarrow>
          (case map_of d (optionxform option) of
             None \<Rightarrow> Inl (NoOptionError (optionxform option) section)
           | Some v \<Rightarrow> before_get section (optionxform option) v d))"

definition cp_has_option :: "config \<Rightarrow> string \<Rightarrow> string \<Rightarrow> bool" where
  "cp_has_option cp section option =
     (if section = [] \<or> section = ''DEFAULT'' then
        map_of (defaults cp) (optionxform option) \<noteq> None
      else
        (case map_of (sections cp) section of
           None \<Rightarrow> False
         | Some opts \<Rightarrow>
             map_of opts (optionxform option) \<noteq> None
             \<or> map_of (defaults cp) (optionxform option) \<noteq> None))"

definition cp_sections :: "config \<Rightarrow> string list" where
  "cp_sections cp = map fst (sections cp)"

definition cp_remove_section :: "config \<Rightarrow> string \<Rightarrow> config" where
  "cp_remove_section cp section =
     cp\<lparr>sections := filter (\<lambda>entry. fst entry \<noteq> section) (sections cp)\<rparr>"

section \<open>UserAgentParser\<close>

subsection \<open>Property resolution: \<open>__get_browser_props\<close>\<close>

text \<open>
  The method calls itself on the parent section with no guard of its own; what bounds
  the recursion is the interpreter, which raises \<open>RecursionError\<close> when the call
  stack is exhausted. The first argument is the number of nested calls the interpreter
  still allows. The flag \<open>safe\<close> is passed along and never read, as in the source.
\<close>

fun get_browser_props :: "nat \<Rightarrow> config \<Rightarrow> string \<Rightarrow> bool \<Rightarrow> error + props" where
  "get_browser_props 0 cp section safe = Inl RecursionError"
| "get_browser_props (Suc depth) cp section safe =
     (case (if cp_has_option cp section ''parent'' then
              (case cp_get cp section ''parent'' of
                 Inl e \<Rightarrow> Inl e
               | Inr parent \<Rightarrow>
                   (case get_browser_props depth cp parent safe of
                      Inl e \<Rightarrow> Inl e
                    | Inr parent_properties \<Rightarrow> Inr (dict_update [] parent_properties)))
            else Inr []) of
        Inl e \<Rightarrow> Inl e
      | Inr result \<Rightarrow>
          (case cp_items cp section of
             Inl e \<Rightarrow> Inl e
           | Inr my_properties \<Rightarrow> Inr (dict_update result (dict_of my_properties))))"

subsection \<open>The parser object\<close>

text \<open>
  The property dictionaries are objects: \<open>user_agent_properties\<close> holds references to
  them and \<open>query\<close> returns such a reference. The store \<open>heap\<close> maps an address (an
  index) to the dictionary it holds; allocation appends. A compiled regular
  expression is determined by its source text, which stands for it.
\<close>

record parser =
  heap :: "props list"
  user_agent_properties :: "(string \<times> nat) list"
  user_agent_regexps :: "(string \<times> string) list"
  match_cache :: "(string \<times> string) list"

definition init :: parser where
  "init = \<lparr>heap = [], user_agent_properties = [], user_agent_regexps = [], match_cache = []\<rparr>"

text \<open>
  What the program takes from its environment: the file system with the parser of the
  ini format (\<open>None\<close>: no such file), the \<open>re\<close> module (whether a source text
  compiles, and whether a compiled expression matches at the start of a string), the
  order in which a Python \<open>set\<close> of strings is iterated (by an arbitrary hash), and the
  recursion depth the interpreter allows. \<open>load_from_url\<close> (a download followed by
  \<open>load\<close>), the drivers \<open>test\<close> and \<open>validate\<close> and the output of \<open>print\<close> are
  not modelled.
\<close>

record env =
  read_ini :: "string \<Rightarrow> config option"
  re_compile :: "string \<Rightarrow> bool"
  re_match :: "string \<Rightarrow> string \<Rightarrow> bool"
  set_hash :: "string \<Rightarrow> nat"
  recursion_limit :: nat

definition set_iter :: "env \<Rightarrow> string list \<Rightarrow> string list" where
  "set_iter E xs = sort_key (set_hash E) xs"

subsection \<open>\<open>load\<close>\<close>

text \<open>
  The first loop of \<open>load\<close>: the sections that are not the parent of a section. The
  set \<open>child_sections\<close> is a list without repetitions. \<open>cp.get\<close> is called outside
  any \<open>try\<close>: an interpolation error of a \<open>parent\<close> value ends \<open>load\<close>.
\<close>

fun child_loop :: "config \<Rightarrow> string list \<Rightarrow> string list \<Rightarrow> error + string list" where
  "child_loop cp [] child_sections = Inr child_sections"
| "child_loop cp (section # rest) child_sections =
     (if cp_has_option cp section ''parent'' then
        (case cp_get cp section ''parent'' of
           Inl e \<Rightarrow> Inl e
         | Inr parent \<Rightarrow>
             child_loop cp rest
               (if parent \<in> set child_sections then removeAll parent child_sections
                else child_sections))
      else child_loop cp rest child_sections)"

definition child_sections :: "config \<Rightarrow> error + string list" where
  "child_sections cp = child_loop cp (cp_sections cp) (remdups (cp_sections cp))"

text \<open>The conversion of a section name into the source text of a regular expression.\<close>

definition escape_unsafe :: "string \<Rightarrow> string" where
  "escape_unsafe section =
     fold (\<lambda>unsafe_char user_agent_re. str_replace unsafe_char [CHR 0x5C, unsafe_char] user_agent_re)
       ''^$()[].-'' section"

definition to_regex :: "string \<Rightarrow> string" where
  "to_regex section =
     ''^'' @ str_replace (CHR ''*'') ''.*?'' (str_replace (CHR ''?'') ''.'' (escape_unsafe section)) @ ''$''"

text \<open>
  The body of the second loop, for one section. A failure of the resolution is caught
  and the section skipped; a failure of \<open>re.compile\<close> is not caught and ends
  \<open>load\<close>, after the properties of the section have been stored. Printing is not
  modelled.
\<close>

definition load_section :: "env \<Rightarrow> config \<Rightarrow> string \<Rightarrow> parser \<Rightarrow> error option \<times> parser" where
  "load_section E cp section p =
     (case get_browser_props (recursion_limit E) cp section False of
        Inl e \<Rightarrow> (None, p)
      | Inr properties \<Rightarrow>
          (let p1 = p\<lparr>heap := heap p @ [properties],
                      user_agent_properties :=
                        AList.update section (length (heap p)) (user_agent_properties p)\<rparr>;
               user_agent_re = to_regex section
           in if re_compile E user_agent_re then
                (None, p1\<lparr>user_agent_regexps :=
                            AList.update section user_agent_re (user_agent_regexps p1)\<rparr>)
              else (Some (ReError user_agent_re), p1)))"

fun load_sections :: "env \<Rightarrow> config \<Rightarrow> string list \<Rightarrow> parser \<Rightarrow> error option \<times> parser" where
  "load_sections E cp [] p = (None, p)"
| "load_sections E cp (section # rest) p =
     (case load_section E cp section p of
        (None, p1) \<Rightarrow> load_sections E cp rest p1
      | (Some e, p1) \<Rightarrow> (Some e, p1))"

definition clean :: "config \<Rightarrow> config" where
  "clean cp = cp_remove_section (cp_remove_section cp ''*'') ''GJK_Browscap_Version''"

definition load :: "env \<Rightarrow> parser \<Rightarrow> string \<Rightarrow> error option \<times> parser" where
  "load E p browscap_ini_filepath =
     (case read_ini E browscap_ini_filepath of
        None \<Rightarrow> (Some (Exception (''File not found: '' @ browscap_ini_filepath)), p)
      | Some cp0 \<Rightarrow>
          (let cp = clean cp0
           in case child_sections cp of
                Inl e \<Rightarrow> (Some e, p)
              | Inr leaf_sections \<Rightarrow> load_sections E cp (set_iter E leaf_sections) p))"

subsection \<open>\<open>__check_init\<close>, \<open>__match\<close>, \<open>query\<close>, \<open>get_all_user_agents\<close>\<close>

definition check_init :: "parser \<Rightarrow> error + unit" where
  "check_init p =
     (if user_agent_regexps p = [] then
        Inl (Exception ''Browser properties not initialized. Must call load(..) method first.'')
      else Inr ())"

text \<open>
  The scan of \<open>__match\<close>: the entries of \<open>user_agent_regexps\<close> in insertion order
  (the loop takes each key and looks its expression up), the running
  \<open>matching_section\<close> as accumulator.
\<close>

fun scan :: "env \<Rightarrow> (string \<times> string) list \<Rightarrow> string \<Rightarrow> string \<Rightarrow> string" where
  "scan E [] user_agent_string matching_section = matching_section"
| "scan E (entry # rest) user_agent_string matching_section =
     scan E rest user_agent_string
       (if re_match E (snd entry) user_agent_string
           \<and> length (fst entry) > length matching_section
        then fst entry else matching_section)"

definition match_ua :: "env \<Rightarrow> parser \<Rightarrow> string \<Rightarrow> string \<times> parser" where
  "match_ua E p user_agent_string =
     (case map_of (match_cache p) user_agent_string of
        Some cached \<Rightarrow> (cached, p)
      | None \<Rightarrow>
          (let matching_section = scan E (user_agent_regexps p) user_agent_string []
           in (matching_section,
               p\<lparr>match_cache :=
                   AList.update user_agent_string matching_section (match_cache p)\<rparr>)))"

text \<open>
  \<open>query\<close> returns a reference: the address of the stored dictionary of the section,
  or of a new empty dictionary in safe mode.
\<close>

definition query :: "env \<Rightarrow> parser \<Rightarrow> string \<Rightarrow> bool \<Rightarrow> (error + nat) \<times> parser" where
  "query E p user_agent_string safe =
     (case check_init p of
        Inl e \<Rightarrow> (Inl e, p)
      | Inr u \<Rightarrow>
          (let (section, p1) = match_ua E p user_agent_string
           in if section = [] then
                (if safe then (Inr (length (heap p1)), p1\<lparr>heap := heap p1 @ [[]]\<rparr>)
                 else (Inl (Exception (''Unknown user agent: ['' @ user_agent_string @ '']'')), p1))
              else
                (case map_of (user_agent_properties p1) section of
                   None \<Rightarrow> (Inl (KeyError section), p1)
                 | Some a \<Rightarrow> (Inr a, p1))))"

definition get_all_user_agents :: "parser \<Rightarrow> error + string list" where
  "get_all_user_agents p =
     (case check_init p of
        Inl e \<Rightarrow> Inl e
      | Inr u \<Rightarrow> Inr (map fst (user_agent_properties p)))"

text \<open>
  What a caller does with a returned reference: read it, or store a key in it
  (\<open>result[k] = v\<close>). A caller only holds references that \<open>query\<close> returned, which
  are addresses of the store.
\<close>

definition deref :: "parser \<Rightarrow> nat \<Rightarrow> props" where
  "deref p a = heap p ! a"

definition setitem :: "parser \<Rightarrow> nat \<Rightarrow> string \<Rightarrow> string \<Rightarrow> parser" where
  "setitem p a k v = p\<lparr>heap := (heap p)[a := AList.update k v (heap p ! a)]\<rparr>"

section \<open>Notions used to state the properties\<close>


text \<open>The leaf sections: what the first loop of \<open>load\<close> computes, where it succeeds.\<close>

definition leaves :: "config \<Rightarrow> string list" where
  "leaves cp = (case child_sections cp of Inl e \<Rightarrow> [] | Inr leaf_sections \<Rightarrow> leaf_sections)"


text \<open>Whether the resolution of a section succeeds under the recursion limit of \<open>E\<close>.\<close>

definition resolvable :: "env \<Rightarrow> config \<Rightarrow> string \<Rightarrow> bool" where
  "resolvable E cp section = (\<not> isl (get_browser_props (recursion_limit E) cp section False))"

text \<open>
  The states of a parser in the life cycle "one load, then queries": a load on the
  new parser that returned, and any number of calls of \<open>query\<close> after it, whatever
  they returned. The database is the section table without its two meta sections.
\<close>

inductive loaded :: "env \<Rightarrow> config \<Rightarrow> parser \<Rightarrow> bool" for E :: env where
  after_load:
    "read_ini E path = Some cp0 \<Longrightarrow> load E init path = (None, p) \<Longrightarrow> loaded E (clean cp0) p"
| after_query:
    "loaded E cp p \<Longrightarrow> query E p user_agent_string safe = (r, p') \<Longrightarrow> loaded E cp p'"

subsection \<open>The fragment of Python's regular expressions that \<open>load\<close> produces\<close>

text \<open>
  The \<open>re\<close> module is a parameter of the model (\<^const>\<open>re_compile\<close>, \<^const>\<open>re_match\<close>).
  To evaluate the program on concrete names, the part of it that the conversion of
  \<open>load\<close> reaches from names free of \<open>+ { } | \\<close> is written out, after the
  documentation of the module: between the anchors \<open>^\<close> and \<open>$\<close>, a backslash before
  a character that is no ASCII letter or digit matches that character, \<open>.\<close> matches
  any character but a line feed, \<open>.*?\<close> any run of such characters, and any other
  character that is no operator matches itself; \<open>$\<close> matches at the end of the
  string and before a line feed that ends it. A source text outside the fragment has
  no parse here, and \<open>fragment_compile\<close> and \<open>fragment_match\<close> say nothing
  about what Python does with it.
\<close>

datatype re_item = Lit char | AnyChar | AnyStarLazy

definition ascii_alnum :: "char \<Rightarrow> bool" where
  "ascii_alnum c =
     (let n = of_char c :: nat
      in (48 \<le> n \<and> n \<le> 57) \<or> (65 \<le> n \<and> n \<le> 90) \<or> (97 \<le> n \<and> n \<le> 122))"

fun re_items :: "string \<Rightarrow> re_item list option" where
  "re_items [] = Some []"
| "re_items (c # cs) =
     (if c = CHR 0x5C then
        (case cs of
           [] \<Rightarrow> None
         | d # ds \<Rightarrow> if ascii_alnum d then None else map_option (Cons (Lit d)) (re_items ds))
      else if c = CHR ''.'' then
        (case cs of
           a # b # r \<Rightarrow>
             if a = CHR ''*'' \<and> b = CHR ''?'' then map_option (Cons AnyStarLazy) (re_items r)
             else map_option (Cons AnyChar) (re_items cs)
         | _ \<Rightarrow> map_option (Cons AnyChar) (re_items cs))
      else if c \<in> set ''*+?{}|()[]^$'' then None
      else map_option (Cons (Lit c)) (re_items cs))"

definition re_parse :: "string \<Rightarrow> re_item list option" where
  "re_parse src =
     (case src of
        [] \<Rightarrow> None
      | c # body \<Rightarrow>
          if c = CHR ''^'' \<and> body \<noteq> [] \<and> last body = CHR ''$'' then re_items (butlast body)
          else None)"

fun items_match :: "re_item list \<Rightarrow> string \<Rightarrow> bool" where
  "items_match [] s = (s = [] \<or> s = [CHR 0x0A])"
| "items_match (Lit c # r) s =
     (case s of [] \<Rightarrow> False | x # xs \<Rightarrow> x = c \<and> items_match r xs)"
| "items_match (AnyChar # r) s =
     (case s of [] \<Rightarrow> False | x # xs \<Rightarrow> x \<noteq> CHR 0x0A \<and> items_match r xs)"
| "items_match (AnyStarLazy # r) s =
     (if items_match r s then True
      else (case s of
              [] \<Rightarrow> False
            | x # xs \<Rightarrow> x \<noteq> CHR 0x0A \<and> items_match (AnyStarLazy # r) xs))"

definition fragment_compile :: "string \<Rightarrow> bool" where
  "fragment_compile src = (re_parse src \<noteq> None)"

definition fragment_match :: "string \<Rightarrow> string \<Rightarrow> bool" where
  "fragment_match src s =
     (case re_parse src of None \<Rightarrow> False | Some items \<Rightarrow> items_match items s)"

text \<open>
  The pattern language as the specification words it: \<open>?\<close> is any single character,
  \<open>*\<close> any run of characters including the empty one, any other character matches
  itself, and the whole string has to match.
\<close>

fun glob :: "string \<Rightarrow> string \<Rightarrow> bool" where
  "glob [] s = (s = [])"
| "glob (g # gs) s =
     (if g = CHR ''*'' then
        (if glob gs s then True
         else (case s of [] \<Rightarrow> False | x # xs \<Rightarrow> glob (g # gs) xs))
      else (case s of [] \<Rightarrow> False | x # xs \<Rightarrow> (g = CHR ''?'' \<or> x = g) \<and> glob gs xs))"

text \<open>
  The conversion as the specification words it, character by character: a backslash
  before each of \<open>^ $ ( ) [ ] . -\<close>, \<open>.\<close> for \<open>?\<close>, \<open>.*?\<close> for \<open>*\<close>.
\<close>

definition convert_char :: "char \<Rightarrow> string" where
  "convert_char c =
     (if c \<in> set ''^$()[].-'' then [CHR 0x5C, c]
      else if c = CHR ''?'' then ''.''
      else if c = CHR ''*'' then ''.*?''
      else [c])"

text \<open>The element of the parsed expression that a character of a name stands for.\<close>

definition item_of :: "char \<Rightarrow> re_item" where
  "item_of c = (if c = CHR ''?'' then AnyChar else if c = CHR ''*'' then AnyStarLazy else Lit c)"

text \<open>
  Names free of the characters that \<open>load\<close> leaves to the \<open>re\<close> module as operators
  (\<open>+ { } |\<close> and the backslash).
\<close>

definition plain :: "string \<Rightarrow> bool" where
  "plain name = (\<forall>c \<in> set name. c \<notin> set ''+{}|'' \<and> c \<noteq> CHR 0x5C)"

text \<open>An environment for concrete runs: one or two files, the fragment above.\<close>

definition files :: "(string \<times> config) list \<Rightarrow> env" where
  "files fs = \<lparr>read_ini = map_of fs, re_compile = fragment_compile, re_match = fragment_match,
                set_hash = length, recursion_limit = 1000\<rparr>"

text \<open>
  What ties a parser to the database \<open>cp\<close> it was loaded from: the patterns are those
  of the leaf sections whose resolution succeeds, each has its resolved properties in
  the store, and every cached selection is what a scan of the patterns selects.
\<close>

definition consistent :: "env \<Rightarrow> config \<Rightarrow> parser \<Rightarrow> bool" where
  "consistent E cp p =
     (child_sections cp = Inr (leaves cp)
      \<and> distinct (map fst (user_agent_regexps p))
      \<and> (\<forall>s. map_of (user_agent_regexps p) s =
             (if s \<in> set (leaves cp) \<and> resolvable E cp s then Some (to_regex s) else None))
      \<and> (\<forall>s. s \<in> set (leaves cp) \<and> resolvable E cp s \<longrightarrow>
             (\<exists>a. map_of (user_agent_properties p) s = Some a \<and> a < length (heap p)
                \<and> get_browser_props (recursion_limit E) cp s False = Inr (heap p ! a)))
      \<and> (\<forall>entry \<in> set (match_cache p).
             snd entry = scan E (user_agent_regexps p) (fst entry) []))"

text \<open>A database for concrete runs, with the two patterns of the specification's example.\<close>

definition browsers_db :: config where
  "browsers_db =
     \<lparr>defaults = [],
      sections =
        [(''GJK_Browscap_Version'', [(''version'', ''4476'')]),
      (''DefaultProperties'', [(''browser'', ''DefaultProperties''), (''platform'', ''unknown'')]),
      (''Mozilla*'', [(''parent'', ''DefaultProperties''), (''browser'', ''Mozilla'')]),
      (''Mozilla/5.0*Firefox*'', [(''parent'', ''DefaultProperties''), (''browser'', ''Firefox'')])]\<rparr>"

definition browsers_env :: env where
  "browsers_env = files [(''browscap.ini'', browsers_db)]"

definition browsers_parser :: parser where
  "browsers_parser = snd (load browsers_env init ''browscap.ini'')"

text \<open>Further databases for concrete runs: a leaf with a missing parent, a cycle of parents, a reload.\<close>

definition orphan_db :: config where
  "orphan_db =
     \<lparr>defaults = [],
      sections =
        [(''Opera/9.*'', [(''parent'', ''Opera 9.0''), (''browser'', ''Opera'')])]\<rparr>"


definition old_db :: config where
  "old_db =
     \<lparr>defaults = [],
      sections =
        [(''Mozilla*'', [(''browser'', ''Mozilla'')]), (''Lynx*'', [(''browser'', ''Lynx'')])]\<rparr>"

definition new_db :: config where
  "new_db =
     \<lparr>defaults = [],
      sections =
        [(''Mozilla/5.0*'', [(''browser'', ''Mozilla 5'')])]\<rparr>"

text \<open>
  A value with a stray \<open>%\<close>, a \<open>DEFAULT\<close> option referred to by a value, and a chain
  of parents without a cycle.
\<close>

definition percent_db :: config where
  "percent_db = \<lparr>defaults = [], sections = [(''P*'', [(''browser'', ''50%'')])]\<rparr>"

definition default_db :: config where
  "default_db =
     \<lparr>defaults = [(''platform'', ''Linux'')],
      sections = [(''Q*'', [(''browser'', ''%(platform)s browser'')])]\<rparr>"

definition family_db :: config where
  "family_db =
     \<lparr>defaults = [],
      sections =
        [(''Child'', [(''parent'', ''Base''), (''browser'', ''Firefox'')]),
         (''Base'', [(''browser'', ''Default''), (''platform'', ''Linux'')])]\<rparr>"


definition reload_env :: env where
  "reload_env = files [(''old.ini'', old_db), (''new.ini'', new_db)]"

definition before_reload :: parser where
  "before_reload =
     snd (query reload_env (snd (load reload_env init ''old.ini'')) ''Mozilla/5.0 Firefox/1.0'' False)"

definition after_reload :: parser where
  "after_reload = snd (load reload_env before_reload ''new.ini'')"

section \<open>Properties\<close>

subsection \<open>Dictionaries and the section table\<close>

lemma map_of_dict_update: "map_of (dict_update d other) = map_of d ++ map_of (rev other)"
proof (induction other arbitrary: d)
  case Nil
  show ?case by (simp add: dict_update_def)
next
  case (Cons kv other)
  have "dict_update d (kv # other) = dict_update (AList.update (fst kv) (snd kv) d) other"
    by (simp add: dict_update_def)
  then have "map_of (dict_update d (kv # other)) =
      map_of (AList.update (fst kv) (snd kv) d) ++ map_of (rev other)"
    by (simp add: Cons.IH)
  also have "\<dots> = map_of d ++ map_of (rev (kv # other))"
    by (cases kv) (auto simp: update_conv' map_add_def fun_eq_iff split: option.splits)
  finally show ?case .
qed

lemma dict_update_distinct_append:
  "distinct (map fst (d @ other)) \<Longrightarrow> dict_update d other = d @ other"
proof (induction other arbitrary: d)
  case Nil
  show ?case by (simp add: dict_update_def)
next
  case (Cons kv other)
  have new: "fst kv \<notin> fst ` set d" using Cons.prems by auto
  have "AList.update (fst kv) (snd kv) d = d @ [kv]"
    using new by (induction d) auto
  moreover have "dict_update d (kv # other) = dict_update (AList.update (fst kv) (snd kv) d) other"
    by (simp add: dict_update_def)
  moreover have "distinct (map fst ((d @ [kv]) @ other))" using Cons.prems by simp
  ultimately show ?case using Cons.IH[of "d @ [kv]"] by simp
qed

lemma dict_of_distinct: "distinct (map fst raw) \<Longrightarrow> dict_of raw = raw"
  using dict_update_distinct_append[of "[]" raw] by (simp add: dict_of_def)

lemma distinct_dict_update: "distinct (map fst d) \<Longrightarrow> distinct (map fst (dict_update d other))"
  by (induction other arbitrary: d) (simp_all add: dict_update_def distinct_update)

lemma dict_update_Nil_id: "distinct (map fst d) \<Longrightarrow> dict_update [] d = d"
  using dict_update_distinct_append[of "[]" d] by simp

lemma distinct_dict_of: "distinct (map fst (dict_of raw))"
  by (simp add: dict_of_def distinct_dict_update)


lemma update_entry:
  "entry \<in> set (AList.update k v al) \<Longrightarrow> entry \<in> set al \<or> entry = (k, v)"
  by (induction al) (auto split: if_splits)

lemma dict_update_entry:
  "entry \<in> set (dict_update d other) \<Longrightarrow> entry \<in> set d \<or> entry \<in> set other"
proof (induction other arbitrary: d)
  case Nil
  then show ?case by (simp add: dict_update_def)
next
  case (Cons kv other)
  have "dict_update d (kv # other) = dict_update (AList.update (fst kv) (snd kv) d) other"
    by (simp add: dict_update_def)
  then have "entry \<in> set (AList.update (fst kv) (snd kv) d) \<or> entry \<in> set other"
    using Cons by simp
  then show ?case by (auto dest: update_entry)
qed

subsection \<open>Interpolation and the options of a section\<close>

lemma interpolate_plain:
  "CHR ''%'' \<notin> set v \<Longrightarrow> 0 < levels \<Longrightarrow> interpolate_some levels option sec d v = Inr v"
proof (induction v)
  case Nil
  then show ?case by (simp add: interpolate_some.simps[where rest = "[]"])
next
  case (Cons c v)
  then show ?case by (auto simp: interpolate_some.simps[where rest = "c # v"])
qed

lemma interpolated_plain:
  "\<forall>entry \<in> set xs. CHR ''%'' \<notin> set (snd entry) \<Longrightarrow> interpolated sec d xs = Inr xs"
  by (induction xs) (simp_all add: before_get_def interpolate_plain)

lemma interpolated_keys: "interpolated sec d xs = Inr ys \<Longrightarrow> map fst ys = map fst xs"
  by (induction xs arbitrary: ys) (auto split: sum.splits)

lemma unify_values_distinct: "unify_values cp name = Inr d \<Longrightarrow> distinct (map fst d)"
  by (auto simp: unify_values_def distinct_dict_update split: option.splits if_splits)

lemma cp_items_distinct: "cp_items cp name = Inr own \<Longrightarrow> distinct (map fst own)"
  by (auto simp: cp_items_def unify_values_distinct dest!: interpolated_keys split: sum.splits)

lemma cp_items_plain:
  assumes "defaults cp = []" "map_of (sections cp) name = Some raw"
      and "\<forall>entry \<in> set raw. CHR ''%'' \<notin> set (snd entry)"
  shows "cp_items cp name = Inr (dict_of raw)"
proof -
  have u: "unify_values cp name = Inr (dict_of raw)"
    using assms(1,2) by (simp add: unify_values_def dict_of_def dict_update_def)
  have "\<forall>entry \<in> set (dict_of raw). CHR ''%'' \<notin> set (snd entry)"
    using assms(3) unfolding dict_of_def by (auto dest!: dict_update_entry)
  then show ?thesis using u by (simp add: cp_items_def interpolated_plain)
qed

subsection \<open>Property resolution\<close>

lemma resolve_root:
  assumes "cp_items cp name = Inr own" "\<not> cp_has_option cp name ''parent''"
  shows "get_browser_props (Suc depth) cp name safe = Inr own"
  using assms cp_items_distinct[OF assms(1)]
  by (simp add: dict_of_distinct dict_update_Nil_id)

lemma resolve_child:
  assumes "cp_items cp name = Inr own" "cp_has_option cp name ''parent''"
      and "cp_get cp name ''parent'' = Inr parent"
  shows "get_browser_props (Suc depth) cp name safe =
     (case get_browser_props depth cp parent safe of
        Inl e \<Rightarrow> Inl e
      | Inr resolved \<Rightarrow> Inr (dict_update (dict_update [] resolved) own))"
  using assms cp_items_distinct[OF assms(1)]
  by (simp add: dict_of_distinct split: sum.splits)

lemma resolve_distinct:
  "get_browser_props depth cp name safe = Inr result \<Longrightarrow> distinct (map fst result)"
  by (cases depth) (auto simp: distinct_dict_update split: if_splits sum.splits)

lemma overlay_lookup:
  assumes "distinct (map fst resolved)" "distinct (map fst own)"
  shows "map_of (dict_update (dict_update [] resolved) own) k =
     (case map_of own k of Some v \<Rightarrow> Some v | None \<Rightarrow> map_of resolved k)"
proof -
  have "dict_update [] own = own"
    using assms(2) by (rule dict_update_Nil_id)
  then have "map_of (rev own) = map_of own"
    using map_of_dict_update[of "[]" own] by simp
  moreover have "dict_update [] resolved = resolved"
    using assms(1) by (rule dict_update_Nil_id)
  ultimately show ?thesis
    by (simp add: map_of_dict_update map_add_def split: option.splits)
qed

text \<open>
  C2, as the code has it. For a section whose options \<open>cp.items\<close> returns, the
  resolution gives: without \<open>parent\<close> option, exactly those options; with a \<open>parent\<close>
  option whose value \<open>cp.get\<close> returns and whose resolution gives \<open>resolved\<close>, a
  dictionary in which every key of the section's options has the section's value and
  every other key the value of \<open>resolved\<close> (the child's value wins); a failure to read
  the \<open>parent\<close> option or to resolve the parent is the failure of the section. The
  options \<open>cp.items\<close> returns are the raw properties of the section where the
  \<open>DEFAULT\<close> section is empty and no value of the section contains \<open>%\<close>.
\<close>

theorem resolve_overlay:
  assumes "cp_items cp name = Inr own"
  shows "(\<not> cp_has_option cp name ''parent'' \<longrightarrow>
            get_browser_props (Suc depth) cp name safe = Inr own)
       \<and> (cp_has_option cp name ''parent'' \<longrightarrow>
            (\<forall>e. cp_get cp name ''parent'' = Inl e \<longrightarrow>
                 get_browser_props (Suc depth) cp name safe = Inl e)
          \<and> (\<forall>parent. cp_get cp name ''parent'' = Inr parent \<longrightarrow>
                (\<forall>e. get_browser_props depth cp parent safe = Inl e \<longrightarrow>
                     get_browser_props (Suc depth) cp name safe = Inl e)
              \<and> (\<forall>resolved. get_browser_props depth cp parent safe = Inr resolved \<longrightarrow>
                    (\<exists>result. get_browser_props (Suc depth) cp name safe = Inr result
                       \<and> (\<forall>k. map_of result k =
                             (case map_of own k of
                                Some v \<Rightarrow> Some v
                              | None \<Rightarrow> map_of resolved k))))))
       \<and> (\<forall>raw. defaults cp = [] \<and> map_of (sections cp) name = Some raw
                \<and> (\<forall>entry \<in> set raw. CHR ''%'' \<notin> set (snd entry)) \<longrightarrow>
              own = dict_of raw \<and> (distinct (map fst raw) \<longrightarrow> own = raw))"
proof -
  note d = cp_items_distinct[OF assms]
  have root: "\<not> cp_has_option cp name ''parent'' \<longrightarrow>
      get_browser_props (Suc depth) cp name safe = Inr own"
    using resolve_root[OF assms] by blast
  have fail: "cp_has_option cp name ''parent'' \<longrightarrow>
      (\<forall>e. cp_get cp name ''parent'' = Inl e \<longrightarrow>
           get_browser_props (Suc depth) cp name safe = Inl e)"
    by simp
  have child: "cp_has_option cp name ''parent'' \<longrightarrow>
      (\<forall>parent. cp_get cp name ''parent'' = Inr parent \<longrightarrow>
                (\<forall>e. get_browser_props depth cp parent safe = Inl e \<longrightarrow>
                     get_browser_props (Suc depth) cp name safe = Inl e)
              \<and> (\<forall>resolved. get_browser_props depth cp parent safe = Inr resolved \<longrightarrow>
                    (\<exists>result. get_browser_props (Suc depth) cp name safe = Inr result
                       \<and> (\<forall>k. map_of result k =
                             (case map_of own k of
                                Some v \<Rightarrow> Some v
                              | None \<Rightarrow> map_of resolved k)))))"
    using d
    by (auto simp: resolve_child[OF assms] overlay_lookup resolve_distinct
             simp del: get_browser_props.simps)
  have raw: "\<forall>raw. defaults cp = [] \<and> map_of (sections cp) name = Some raw
                \<and> (\<forall>entry \<in> set raw. CHR ''%'' \<notin> set (snd entry)) \<longrightarrow>
              own = dict_of raw \<and> (distinct (map fst raw) \<longrightarrow> own = raw)"
    using assms cp_items_plain[of cp name] by (auto simp: dict_of_distinct)
  show ?thesis using root fail child raw by blast
qed

theorem resolve_overlay_witness:
  "cp_items family_db ''Child'' = Inr [(''parent'', ''Base''), (''browser'', ''Firefox'')]
   \<and> cp_has_option family_db ''Child'' ''parent''
   \<and> cp_get family_db ''Child'' ''parent'' = Inr ''Base''
   \<and> get_browser_props 1 family_db ''Base'' False
       = Inr [(''browser'', ''Default''), (''platform'', ''Linux'')]
   \<and> (\<exists>result. get_browser_props 2 family_db ''Child'' False = Inr result
       \<and> map_of result ''browser'' = Some ''Firefox''
       \<and> map_of result ''platform'' = Some ''Linux'')"
proof -
  have own: "cp_items family_db ''Child'' = Inr [(''parent'', ''Base''), (''browser'', ''Firefox'')]"
    by code_simp
  have has: "cp_has_option family_db ''Child'' ''parent''" by code_simp
  have par: "cp_get family_db ''Child'' ''parent'' = Inr ''Base''" by code_simp
  have base: "get_browser_props (Suc 0) family_db ''Base'' False
      = Inr [(''browser'', ''Default''), (''platform'', ''Linux'')]"
    by code_simp
  from resolve_overlay[OF own, of "Suc 0" False] has par base
  obtain result where r: "get_browser_props (Suc (Suc 0)) family_db ''Child'' False = Inr result"
    and k: "\<And>k. map_of result k =
      (case map_of [(''parent'', ''Base''), (''browser'', ''Firefox'')] k of
         Some v \<Rightarrow> Some v
       | None \<Rightarrow> map_of [(''browser'', ''Default''), (''platform'', ''Linux'')] k)"
    by blast
  have two: "(2::nat) = Suc (Suc 0)" and one: "(1::nat) = Suc 0" by simp_all
  have "map_of result ''browser'' = Some ''Firefox''" "map_of result ''platform'' = Some ''Linux''"
    unfolding k by simp_all
  then show ?thesis
    unfolding two one using own has par base r by blast
qed

text \<open>
  C2, as the claim states it, fails where the options \<open>cp.items\<close> returns are not the
  raw properties of the section. The section \<open>P*\<close> has no parent and the raw property
  \<open>browser = 50%\<close>: its resolution fails with \<open>InterpolationSyntaxError\<close>. The
  section \<open>Q*\<close> has no parent and the raw property \<open>browser = %(platform)s browser\<close>:
  it resolves to the \<open>DEFAULT\<close> option \<open>platform\<close> and the interpolated value.
\<close>

theorem resolve_overlay_counterexample:
  "map_of (sections percent_db) ''P*'' = Some [(''browser'', ''50%'')]
   \<and> \<not> cp_has_option percent_db ''P*'' ''parent''
   \<and> get_browser_props 1000 percent_db ''P*'' False
       = Inl (InterpolationSyntaxError ''browser'' ''P*'')
   \<and> map_of (sections default_db) ''Q*'' = Some [(''browser'', ''%(platform)s browser'')]
   \<and> \<not> cp_has_option default_db ''Q*'' ''parent''
   \<and> get_browser_props 1000 default_db ''Q*'' False
       = Inr [(''platform'', ''Linux''), (''browser'', ''Linux browser'')]"
  by code_simp

subsection \<open>The conversion of a section name into a regular expression\<close>

lemma str_replace_append:
  "str_replace old new (xs @ ys) = str_replace old new xs @ str_replace old new ys"
  by (simp add: str_replace_def)

lemma escape_unsafe_append: "escape_unsafe (xs @ ys) = escape_unsafe xs @ escape_unsafe ys"
  by (simp add: escape_unsafe_def str_replace_append)

lemma convert_single:
  "str_replace (CHR ''*'') ''.*?'' (str_replace (CHR ''?'') ''.'' (escape_unsafe [c])) = convert_char c"
  by (simp add: escape_unsafe_def str_replace_def convert_char_def)

lemma convert_all:
  "str_replace (CHR ''*'') ''.*?'' (str_replace (CHR ''?'') ''.'' (escape_unsafe name))
     = concat (map convert_char name)"
proof (induction name)
  case Nil
  show ?case by (simp add: escape_unsafe_def str_replace_def)
next
  case (Cons c name)
  have "escape_unsafe (c # name) = escape_unsafe [c] @ escape_unsafe name"
    using escape_unsafe_append[of "[c]" name] by simp
  then show ?case
    using Cons.IH convert_single[of c] by (simp add: str_replace_append)
qed

lemma to_regex_convert: "to_regex name = ''^'' @ concat (map convert_char name) @ ''$''"
  by (simp add: to_regex_def convert_all)

lemma convert_hd: "concat (map convert_char name) = a # r \<Longrightarrow> a \<noteq> CHR ''*''"
proof (induction name)
  case Nil
  then show ?case by simp
next
  case (Cons c name)
  then show ?case by (auto simp: convert_char_def split: if_splits)
qed

lemma re_items_dot:
  "(\<And>a r. rest = a # r \<Longrightarrow> a \<noteq> CHR ''*'') \<Longrightarrow>
     re_items (CHR ''.'' # rest) = map_option (Cons AnyChar) (re_items rest)"
  by (auto split: list.splits)

lemma re_items_convert:
  "plain name \<Longrightarrow> re_items (concat (map convert_char name)) = Some (map item_of name)"
proof (induction name)
  case Nil
  show ?case by simp
next
  case (Cons c name)
  let ?rest = "concat (map convert_char name)"
  have IH: "re_items ?rest = Some (map item_of name)"
    using Cons by (simp add: plain_def)
  have c: "c \<notin> set ''+{}|''" "c \<noteq> CHR 0x5C" using Cons.prems by (simp_all add: plain_def)
  have nostar: "\<And>a r. ?rest = a # r \<Longrightarrow> a \<noteq> CHR ''*''" by (rule convert_hd)
  consider (unsafe) "c \<in> set ''^$()[].-''" | (one) "c = CHR ''?''" | (star) "c = CHR ''*''"
    | (lit) "c \<notin> set ''^$()[].-''" "c \<noteq> CHR ''?''" "c \<noteq> CHR ''*''" by blast
  then show ?case
  proof cases
    case unsafe
    then have "convert_char c = [CHR 0x5C, c]" "\<not> ascii_alnum c" "item_of c = Lit c"
      by (auto simp: convert_char_def ascii_alnum_def item_of_def)
    then show ?thesis using IH by simp
  next
    case one
    then have cc: "convert_char c = ''.''" "item_of c = AnyChar"
      by (simp_all add: convert_char_def item_of_def)
    have "re_items (CHR ''.'' # ?rest) = map_option (Cons AnyChar) (re_items ?rest)"
      using nostar by (rule re_items_dot)
    then show ?thesis using cc IH by simp
  next
    case star
    then have "convert_char c = ''.*?''" "item_of c = AnyStarLazy"
      by (simp_all add: convert_char_def item_of_def)
    then show ?thesis using IH by simp
  next
    case lit
    then have "convert_char c = [c]" "item_of c = Lit c"
      by (simp_all add: convert_char_def item_of_def)
    moreover have "c \<noteq> CHR ''.''" "c \<notin> set ''*+?{}|()[]^$''" using lit c by auto
    ultimately show ?thesis using IH c by simp
  qed
qed

lemma re_parse_to_regex:
  "plain name \<Longrightarrow> re_parse (to_regex name) = Some (map item_of name)"
  by (simp add: to_regex_convert re_parse_def re_items_convert butlast_append)

lemma items_match_glob:
  "CHR 0x0A \<notin> set s \<Longrightarrow> items_match (map item_of name) s = glob name s"
proof (induction name s rule: glob.induct)
  case (1 s)
  then show ?case by auto
next
  case (2 g gs s)
  show ?case
  proof (cases "g = CHR ''*''")
    case True
    show ?thesis
    proof (cases "glob gs s")
      case T: True
      then show ?thesis using 2 True by (simp add: item_of_def)
    next
      case F: False
      then show ?thesis using 2 True by (cases s) (auto simp: item_of_def)
    qed
  next
    case False
    then show ?thesis using 2 by (cases s) (auto simp: item_of_def)
  qed
qed

lemma fragment_match_glob:
  "plain name \<Longrightarrow> CHR 0x0A \<notin> set s \<Longrightarrow> fragment_match (to_regex name) s = glob name s"
  by (simp add: fragment_match_def re_parse_to_regex items_match_glob)

text \<open>
  C4, as the code has it. For every section name the source text of the pattern is
  \<open>^\<close>, then for each character of the name a backslash and the character if it is
  one of \<open>^ $ ( ) [ ] . -\<close>, \<open>.\<close> for \<open>?\<close>, \<open>.*?\<close> for \<open>*\<close> and the character itself
  otherwise, then \<open>$\<close>. For a name free of \<open>+ { } |\<close> and the backslash and a string
  free of line feeds, the pattern matches the string exactly when the name matches
  the whole string as a pattern in which \<open>?\<close> is one arbitrary character and \<open>*\<close>
  zero or more arbitrary characters. The name \<open>Mozilla/5.0*Firefox/1.?.*\<close> matches
  \<open>Mozilla/5.0 (X11) Firefox/1.5.0.5\<close> and does not match \<open>Mozilla/4.0 Firefox/2.0\<close>.
\<close>

theorem pattern_conversion:
  "to_regex name = ''^'' @ concat (map convert_char name) @ ''$''
   \<and> (plain name \<longrightarrow> CHR 0x0A \<notin> set s \<longrightarrow> fragment_match (to_regex name) s = glob name s)
   \<and> fragment_match (to_regex ''Mozilla/5.0*Firefox/1.?.*'') ''Mozilla/5.0 (X11) Firefox/1.5.0.5''
   \<and> \<not> fragment_match (to_regex ''Mozilla/5.0*Firefox/1.?.*'') ''Mozilla/4.0 Firefox/2.0''"
proof -
  have "fragment_match (to_regex ''Mozilla/5.0*Firefox/1.?.*'') ''Mozilla/5.0 (X11) Firefox/1.5.0.5''"
    by code_simp
  moreover have "\<not> fragment_match (to_regex ''Mozilla/5.0*Firefox/1.?.*'') ''Mozilla/4.0 Firefox/2.0''"
    by code_simp
  ultimately show ?thesis
    using to_regex_convert fragment_match_glob by blast
qed

theorem pattern_conversion_witness:
  "plain ''Mozilla/5.0*Firefox/1.?'' \<and> CHR 0x0A \<notin> set ''Mozilla/5.0 Firefox/1.5''
   \<and> fragment_match (to_regex ''Mozilla/5.0*Firefox/1.?'') ''Mozilla/5.0 Firefox/1.5''
       = glob ''Mozilla/5.0*Firefox/1.?'' ''Mozilla/5.0 Firefox/1.5''
   \<and> glob ''Mozilla/5.0*Firefox/1.?'' ''Mozilla/5.0 Firefox/1.5''"
proof -
  have p: "plain ''Mozilla/5.0*Firefox/1.?''" by (simp add: plain_def)
  have n: "CHR 0x0A \<notin> set ''Mozilla/5.0 Firefox/1.5''" by simp
  have g: "glob ''Mozilla/5.0*Firefox/1.?'' ''Mozilla/5.0 Firefox/1.5''" by code_simp
  show ?thesis
    using p n g pattern_conversion[of "''Mozilla/5.0*Firefox/1.?''" "''Mozilla/5.0 Firefox/1.5''"]
    by blast
qed

text \<open>
  C4, as the claim states it, fails where a line feed is involved: \<open>?\<close> becomes \<open>.\<close>,
  which matches no line feed, and the anchor \<open>$\<close> accepts a line feed that ends the
  string. It fails as well where the name has a backslash before \<open>?\<close>: the backslash
  of the name makes the \<open>.\<close> a literal dot.
\<close>

theorem pattern_conversion_counterexample:
  "\<not> fragment_match (to_regex ''a?c'') [CHR ''a'', CHR 0x0A, CHR ''c'']
   \<and> fragment_match (to_regex ''a'') [CHR ''a'', CHR 0x0A]
   \<and> \<not> fragment_match (to_regex [CHR 0x5C, CHR ''?'']) [CHR 0x5C, CHR ''a'']"
  by code_simp

subsection \<open>The two loops of \<open>load\<close>\<close>

lemma load_section_skip:
  "\<not> resolvable E cp x \<Longrightarrow> load_section E cp x p = (None, p)"
  by (auto simp: load_section_def resolvable_def split: sum.splits)

lemma load_section_store:
  assumes "get_browser_props (recursion_limit E) cp x False = Inr props"
      and "load_section E cp x p = (None, p')"
  shows "p' = p\<lparr>heap := heap p @ [props],
                 user_agent_properties := AList.update x (length (heap p)) (user_agent_properties p),
                 user_agent_regexps := AList.update x (to_regex x) (user_agent_regexps p)\<rparr>"
  using assms by (auto simp: load_section_def Let_def split: if_splits)

lemma load_section_cases:
  assumes "load_section E cp x p = (None, p')"
  obtains (skip) "\<not> resolvable E cp x" "p' = p"
  | (store) props where "resolvable E cp x"
      "get_browser_props (recursion_limit E) cp x False = Inr props"
      "p' = p\<lparr>heap := heap p @ [props],
                 user_agent_properties := AList.update x (length (heap p)) (user_agent_properties p),
                 user_agent_regexps := AList.update x (to_regex x) (user_agent_regexps p)\<rparr>"
proof (cases "get_browser_props (recursion_limit E) cp x False")
  case (Inl e)
  then have "\<not> resolvable E cp x" by (simp add: resolvable_def)
  then show ?thesis using assms skip by (simp add: load_section_skip)
next
  case (Inr props)
  then have "resolvable E cp x" by (simp add: resolvable_def)
  then show ?thesis using Inr assms store load_section_store by blast
qed

lemma load_sections_cache:
  "load_sections E cp xs p = (r, p') \<Longrightarrow> match_cache p' = match_cache p"
proof (induction xs arbitrary: p)
  case Nil
  then show ?case by simp
next
  case (Cons x xs)
  obtain r1 p1 where s: "load_section E cp x p = (r1, p1)" by (cases "load_section E cp x p")
  have c: "match_cache p1 = match_cache p"
    using s by (auto simp: load_section_def Let_def split: sum.splits if_splits)
  show ?case
  proof (cases r1)
    case None
    then show ?thesis using Cons s c by simp
  next
    case (Some e)
    then show ?thesis using Cons.prems s c by simp
  qed
qed

lemma load_sections_heap:
  "load_sections E cp xs p = (r, p') \<Longrightarrow> \<exists>ext. heap p' = heap p @ ext"
proof (induction xs arbitrary: p)
  case Nil
  then show ?case by simp
next
  case (Cons x xs)
  obtain r1 p1 where s: "load_section E cp x p = (r1, p1)" by (cases "load_section E cp x p")
  have c: "\<exists>ext. heap p1 = heap p @ ext"
    using s by (auto simp: load_section_def Let_def split: sum.splits if_splits)
  show ?case
  proof (cases r1)
    case None
    then have "\<exists>ext. heap p' = heap p1 @ ext" using Cons s by simp
    then show ?thesis using c by auto
  next
    case (Some e)
    then show ?thesis using Cons.prems s c by simp
  qed
qed

lemma load_sections_regexps:
  "load_sections E cp xs p = (None, p') \<Longrightarrow>
     map_of (user_agent_regexps p') s =
       (if s \<in> set xs \<and> resolvable E cp s then Some (to_regex s)
        else map_of (user_agent_regexps p) s)"
proof (induction xs arbitrary: p)
  case Nil
  then show ?case by simp
next
  case (Cons x xs)
  obtain r1 p1 where s1: "load_section E cp x p = (r1, p1)" by (cases "load_section E cp x p")
  have r1: "r1 = None" using Cons.prems s1 by (cases r1) auto
  then have rest: "load_sections E cp xs p1 = (None, p')" using Cons.prems s1 by simp
  note IH = Cons.IH[OF rest]
  from s1[unfolded r1] show ?case
  proof (cases rule: load_section_cases)
    case skip
    then show ?thesis using IH by auto
  next
    case (store props)
    then show ?thesis using IH by (auto simp: update_conv')
  qed
qed

lemma load_sections_props:
  "load_sections E cp xs p = (None, p') \<Longrightarrow>
     (if s \<in> set xs \<and> resolvable E cp s
      then (\<exists>a. map_of (user_agent_properties p') s = Some a \<and> length (heap p) \<le> a
                \<and> a < length (heap p')
                \<and> get_browser_props (recursion_limit E) cp s False = Inr (heap p' ! a))
      else map_of (user_agent_properties p') s = map_of (user_agent_properties p) s)"
proof (induction xs arbitrary: p)
  case Nil
  then show ?case by simp
next
  case (Cons x xs)
  obtain r1 p1 where s1: "load_section E cp x p = (r1, p1)" by (cases "load_section E cp x p")
  have r1: "r1 = None" using Cons.prems s1 by (cases r1) auto
  then have rest: "load_sections E cp xs p1 = (None, p')" using Cons.prems s1 by simp
  note IH = Cons.IH[OF rest]
  obtain ext where ext: "heap p' = heap p1 @ ext" using load_sections_heap[OF rest] by blast
  from s1[unfolded r1] show ?case
  proof (cases rule: load_section_cases)
    case skip
    then show ?thesis using IH by auto
  next
    case (store props)
    show ?thesis
    proof (cases "s \<in> set xs \<and> resolvable E cp s")
      case True
      then obtain a where "map_of (user_agent_properties p') s = Some a" "length (heap p1) \<le> a"
        "a < length (heap p')" "get_browser_props (recursion_limit E) cp s False = Inr (heap p' ! a)"
        using IH by auto
      moreover have "length (heap p) \<le> length (heap p1)" using store by simp
      ultimately show ?thesis using True by auto
    next
      case False
      then have same: "map_of (user_agent_properties p') s = map_of (user_agent_properties p1) s"
        using IH by auto
      show ?thesis
      proof (cases "s = x")
        case True
        have "map_of (user_agent_properties p1) x = Some (length (heap p))"
          using store by (simp add: update_conv')
        moreover have "heap p' ! length (heap p) = props"
          using ext store by (simp add: nth_append)
        moreover have "length (heap p) < length (heap p')" using ext store by simp
        ultimately show ?thesis using True same store by auto
      next
        case F: False
        then have "map_of (user_agent_properties p1) s = map_of (user_agent_properties p) s"
          using store by (simp add: update_conv')
        then show ?thesis using F False same by auto
      qed
    qed
  qed
qed

lemma load_sections_distinct:
  "load_sections E cp xs p = (r, p') \<Longrightarrow> distinct (map fst (user_agent_regexps p)) \<Longrightarrow>
     distinct (map fst (user_agent_regexps p'))"
proof (induction xs arbitrary: p)
  case Nil
  then show ?case by simp
next
  case (Cons x xs)
  obtain r1 p1 where s: "load_section E cp x p = (r1, p1)" by (cases "load_section E cp x p")
  have c: "distinct (map fst (user_agent_regexps p1))"
    using s Cons.prems(2)
    by (auto simp: load_section_def Let_def distinct_update split: sum.splits if_splits)
  show ?case
  proof (cases r1)
    case None
    then show ?thesis using Cons s c by simp
  next
    case (Some e)
    then show ?thesis using Cons.prems s c by simp
  qed
qed


subsection \<open>The scan, the cache and the invariant of a loaded parser\<close>

lemma scan_ge: "length m \<le> length (scan E rxs ua m)"
proof (induction rxs arbitrary: m)
  case Nil
  show ?case by simp
next
  case (Cons entry rxs)
  let ?m = "if re_match E (snd entry) ua \<and> length m < length (fst entry) then fst entry else m"
  have "length m \<le> length ?m" by simp
  also have "\<dots> \<le> length (scan E rxs ua ?m)" by (rule Cons.IH)
  finally show ?case by simp
qed

lemma scan_cases:
  "scan E rxs ua m = m \<or> (\<exists>rx. (scan E rxs ua m, rx) \<in> set rxs \<and> re_match E rx ua)"
proof (induction rxs arbitrary: m)
  case Nil
  show ?case by simp
next
  case (Cons entry rxs)
  let ?m = "if re_match E (snd entry) ua \<and> length m < length (fst entry) then fst entry else m"
  from Cons.IH[of ?m] show ?case
    by (cases entry) (auto split: if_splits)
qed

lemma scan_max:
  "(s, rx) \<in> set rxs \<Longrightarrow> re_match E rx ua \<Longrightarrow> length s \<le> length (scan E rxs ua m)"
proof (induction rxs arbitrary: m)
  case Nil
  then show ?case by simp
next
  case (Cons entry rxs)
  let ?m = "if re_match E (snd entry) ua \<and> length m < length (fst entry) then fst entry else m"
  show ?case
  proof (cases "(s, rx) = entry")
    case True
    then have "length s \<le> length ?m" using Cons.prems by auto
    also have "\<dots> \<le> length (scan E rxs ua ?m)" by (rule scan_ge)
    finally show ?thesis by simp
  next
    case False
    then have "(s, rx) \<in> set rxs" using Cons.prems by auto
    then show ?thesis using Cons.IH Cons.prems by simp
  qed
qed


lemma match_ua_state:
  "match_ua E p ua = (m, p') \<Longrightarrow>
     heap p' = heap p \<and> user_agent_properties p' = user_agent_properties p
     \<and> user_agent_regexps p' = user_agent_regexps p
     \<and> (match_cache p' = match_cache p
        \<or> match_cache p' = AList.update ua (scan E (user_agent_regexps p) ua []) (match_cache p))"
  by (auto simp: match_ua_def Let_def split: option.splits)

lemma match_ua_cached:
  "match_ua E p ua = (m, p') \<Longrightarrow> map_of (match_cache p') ua = Some m"
  by (auto simp: match_ua_def Let_def update_conv' split: option.splits)

lemma match_ua_scan:
  assumes "\<forall>entry \<in> set (match_cache p). snd entry = scan E (user_agent_regexps p) (fst entry) []"
  shows "fst (match_ua E p ua) = scan E (user_agent_regexps p) ua []"
proof (cases "map_of (match_cache p) ua")
  case None
  then show ?thesis by (simp add: match_ua_def Let_def)
next
  case (Some m)
  then have "(ua, m) \<in> set (match_cache p)" by (rule map_of_SomeD)
  then have "m = scan E (user_agent_regexps p) ua []" using assms by fastforce
  then show ?thesis using Some by (simp add: match_ua_def)
qed

lemma query_state:
  "query E p ua safe = (r, p') \<Longrightarrow>
     (\<exists>ext. heap p' = heap p @ ext) \<and> user_agent_properties p' = user_agent_properties p
     \<and> user_agent_regexps p' = user_agent_regexps p
     \<and> (match_cache p' = match_cache p
        \<or> match_cache p' = AList.update ua (scan E (user_agent_regexps p) ua []) (match_cache p))"
proof -
  assume q: "query E p ua safe = (r, p')"
  obtain m p1 where m: "match_ua E p ua = (m, p1)" by (cases "match_ua E p ua")
  note st = match_ua_state[OF m]
  show ?thesis
  proof (cases "check_init p")
    case (Inl e)
    then show ?thesis using q by (simp add: query_def)
  next
    case (Inr u)
    then show ?thesis using q m st
      by (auto simp: query_def split: if_splits option.splits)
  qed
qed

lemma consistent_query:
  assumes "consistent E cp p" "query E p ua safe = (r, p')"
  shows "consistent E cp p'"
proof -
  from query_state[OF assms(2)] obtain ext where
    h: "heap p' = heap p @ ext" and u: "user_agent_properties p' = user_agent_properties p"
    and x: "user_agent_regexps p' = user_agent_regexps p"
    and c: "match_cache p' = match_cache p
        \<or> match_cache p' = AList.update ua (scan E (user_agent_regexps p) ua []) (match_cache p)"
    by blast
  have cache: "\<forall>entry \<in> set (match_cache p'). snd entry = scan E (user_agent_regexps p') (fst entry) []"
    using c assms(1) x by (auto simp: consistent_def dest!: update_entry)
  have props: "\<forall>s. s \<in> set (leaves cp) \<and> resolvable E cp s \<longrightarrow>
             (\<exists>a. map_of (user_agent_properties p') s = Some a \<and> a < length (heap p')
                \<and> get_browser_props (recursion_limit E) cp s False = Inr (heap p' ! a))"
  proof (intro allI impI)
    fix s assume "s \<in> set (leaves cp) \<and> resolvable E cp s"
    then obtain a where "map_of (user_agent_properties p) s = Some a" "a < length (heap p)"
      "get_browser_props (recursion_limit E) cp s False = Inr (heap p ! a)"
      using assms(1) unfolding consistent_def by blast
    then show "\<exists>a. map_of (user_agent_properties p') s = Some a \<and> a < length (heap p')
                \<and> get_browser_props (recursion_limit E) cp s False = Inr (heap p' ! a)"
      using h u by (auto simp: nth_append)
  qed
  show ?thesis
    unfolding consistent_def using assms(1) cache props x by (simp add: consistent_def)
qed

lemma set_iter_set: "set (set_iter E xs) = set xs"
  by (simp add: set_iter_def)

lemma load_returns:
  assumes "read_ini E path = Some cp0" "load E p path = (None, p')"
  shows "child_sections (clean cp0) = Inr (leaves (clean cp0))
       \<and> load_sections E (clean cp0) (set_iter E (leaves (clean cp0))) p = (None, p')"
  using assms by (auto simp: load_def leaves_def Let_def split: sum.splits)

lemma consistent_load:
  assumes "read_ini E path = Some cp0" "load E init path = (None, p)"
  shows "consistent E (clean cp0) p"
proof -
  let ?cp = "clean cp0"
  have ch: "child_sections ?cp = Inr (leaves ?cp)"
    and ls: "load_sections E ?cp (set_iter E (leaves ?cp)) init = (None, p)"
    using load_returns[OF assms] by simp_all
  have "distinct (map fst (user_agent_regexps init))" by (simp add: init_def)
  then have d: "distinct (map fst (user_agent_regexps p))"
    using load_sections_distinct[OF ls] by simp
  have rx: "\<And>s. map_of (user_agent_regexps p) s =
       (if s \<in> set (leaves ?cp) \<and> resolvable E ?cp s then Some (to_regex s) else None)"
    using load_sections_regexps[OF ls] by (simp add: set_iter_set init_def)
  have pr: "\<And>s. s \<in> set (leaves ?cp) \<and> resolvable E ?cp s \<Longrightarrow>
             (\<exists>a. map_of (user_agent_properties p) s = Some a \<and> a < length (heap p)
                \<and> get_browser_props (recursion_limit E) ?cp s False = Inr (heap p ! a))"
  proof -
    fix s assume a: "s \<in> set (leaves ?cp) \<and> resolvable E ?cp s"
    show "\<exists>a. map_of (user_agent_properties p) s = Some a \<and> a < length (heap p)
                \<and> get_browser_props (recursion_limit E) ?cp s False = Inr (heap p ! a)"
      using load_sections_props[OF ls, of s] a by (auto simp: set_iter_set)
  qed
  have "match_cache p = []" using load_sections_cache[OF ls] by (simp add: init_def)
  then show ?thesis
    unfolding consistent_def using ch d rx pr by auto
qed

lemma loaded_consistent: "loaded E cp p \<Longrightarrow> consistent E cp p"
  by (induction rule: loaded.induct) (auto intro: consistent_load consistent_query)

lemma loaded_leaves: "loaded E cp p \<Longrightarrow> child_sections cp = Inr (leaves cp)"
  using loaded_consistent by (simp add: consistent_def)

subsection \<open>Queries\<close>

text \<open>
  C9. On a parser on which \<open>load\<close> has not been called, \<open>query\<close> fails with the
  "not initialized" exception for every string and both values of \<open>safe\<close>, and leaves
  the parser as it was.
\<close>

theorem query_before_load:
  "query E init user_agent_string safe =
     (Inl (Exception ''Browser properties not initialized. Must call load(..) method first.''), init)"
  by (simp add: query_def check_init_def init_def)

text \<open>
  The selection rule in the life cycle "one load, then queries". On a parser loaded
  from a database, when some leaf section with a resolution and a non-empty name has a
  pattern that matches the string, \<open>__match\<close> selects a leaf section whose pattern
  matches and whose name is at least as long as the name of every leaf section whose
  pattern matches, and \<open>query\<close> returns the reference to the resolved properties of
  that section. (ConfigParser accepts no empty section name.)
\<close>

theorem query_most_specific:
  assumes "loaded E cp p"
      and "s0 \<in> set (leaves cp)" "resolvable E cp s0" "s0 \<noteq> []"
      and "re_match E (to_regex s0) ua"
  shows "\<exists>sec a. fst (match_ua E p ua) = sec
           \<and> sec \<in> set (leaves cp) \<and> resolvable E cp sec
           \<and> re_match E (to_regex sec) ua
           \<and> (\<forall>s \<in> set (leaves cp).
                 resolvable E cp s \<longrightarrow> re_match E (to_regex s) ua \<longrightarrow> length s \<le> length sec)
           \<and> fst (query E p ua safe) = Inr a
           \<and> map_of (user_agent_properties p) sec = Some a
           \<and> get_browser_props (recursion_limit E) cp sec False
               = Inr (deref (snd (query E p ua safe)) a)"
proof -
  have c: "consistent E cp p" using assms(1) by (rule loaded_consistent)
  let ?rxs = "user_agent_regexps p"
  let ?sec = "scan E ?rxs ua []"
  have leaf: "\<And>s. map_of ?rxs s =
      (if s \<in> set (leaves cp) \<and> resolvable E cp s then Some (to_regex s) else None)"
    using c by (simp add: consistent_def)
  have m: "fst (match_ua E p ua) = ?sec"
    using c by (intro match_ua_scan) (simp add: consistent_def)
  have in0: "(s0, to_regex s0) \<in> set ?rxs"
    using leaf[of s0] assms(2,3) by (auto dest: map_of_SomeD)
  then have "length s0 \<le> length ?sec" using assms(5) by (rule scan_max)
  then have ne: "?sec \<noteq> []" using assms(4) by auto
  then obtain rx where rx: "(?sec, rx) \<in> set ?rxs" "re_match E rx ua"
    using scan_cases[of E ?rxs ua "[]"] by auto
  have d: "distinct (map fst ?rxs)" using c by (simp add: consistent_def)
  then have "map_of ?rxs ?sec = Some rx" using rx(1) by simp
  then have sec: "?sec \<in> set (leaves cp)" "resolvable E cp ?sec" "rx = to_regex ?sec"
    using leaf[of ?sec] by (auto split: if_splits)
  have mx: "\<forall>s \<in> set (leaves cp).
       resolvable E cp s \<longrightarrow> re_match E (to_regex s) ua \<longrightarrow> length s \<le> length ?sec"
  proof (intro ballI impI)
    fix s assume "s \<in> set (leaves cp)" "resolvable E cp s" "re_match E (to_regex s) ua"
    moreover from this have "(s, to_regex s) \<in> set ?rxs"
      using leaf[of s] by (auto dest: map_of_SomeD)
    ultimately show "length s \<le> length ?sec" using scan_max by blast
  qed
  obtain a where a: "map_of (user_agent_properties p) ?sec = Some a" "a < length (heap p)"
      "get_browser_props (recursion_limit E) cp ?sec False = Inr (heap p ! a)"
    using c sec unfolding consistent_def by blast
  obtain m1 p1 where mu: "match_ua E p ua = (m1, p1)" by (cases "match_ua E p ua")
  then have m1: "m1 = ?sec" using m by simp
  have st: "heap p1 = heap p" "user_agent_properties p1 = user_agent_properties p"
    using match_ua_state[OF mu] by simp_all
  have init: "check_init p = Inr ()" using in0 by (auto simp: check_init_def)
  have q: "query E p ua safe = (Inr a, p1)"
    using init mu m1 ne a st by (simp add: query_def)
  have "deref (snd (query E p ua safe)) a = heap p ! a"
    using q st by (simp add: deref_def)
  then show ?thesis using m sec rx mx q a by auto
qed

lemma browsers_children:
  "leaves (clean browsers_db) = [''Mozilla*'', ''Mozilla/5.0*Firefox*'']"
  by code_simp

lemma browsers_loaded: "loaded browsers_env (clean browsers_db) browsers_parser"
proof -
  have "read_ini browsers_env ''browscap.ini'' = Some browsers_db"
    by (simp add: browsers_env_def files_def)
  moreover have "fst (load browsers_env init ''browscap.ini'') = None"
    by code_simp
  then have "load browsers_env init ''browscap.ini'' = (None, browsers_parser)"
    by (simp add: browsers_parser_def prod_eq_iff)
  ultimately show ?thesis by (rule loaded.after_load)
qed

theorem query_most_specific_witness:
  "loaded browsers_env (clean browsers_db) browsers_parser
   \<and> ''Mozilla*'' \<in> set (leaves (clean browsers_db))
   \<and> resolvable browsers_env (clean browsers_db) ''Mozilla*''
   \<and> re_match browsers_env (to_regex ''Mozilla*'') ''Mozilla/5.0 Firefox/1.0''
   \<and> re_match browsers_env (to_regex ''Mozilla/5.0*Firefox*'') ''Mozilla/5.0 Firefox/1.0''
   \<and> fst (match_ua browsers_env browsers_parser ''Mozilla/5.0 Firefox/1.0'') = ''Mozilla/5.0*Firefox*''
   \<and> (\<exists>a. fst (query browsers_env browsers_parser ''Mozilla/5.0 Firefox/1.0'' False) = Inr a
         \<and> get_browser_props 1000 (clean browsers_db) ''Mozilla/5.0*Firefox*'' False
             = Inr (deref (snd (query browsers_env browsers_parser ''Mozilla/5.0 Firefox/1.0'' False)) a))"
proof -
  let ?ua = "''Mozilla/5.0 Firefox/1.0''"
  have l: "loaded browsers_env (clean browsers_db) browsers_parser" by (rule browsers_loaded)
  have c: "''Mozilla*'' \<in> set (leaves (clean browsers_db))"
    by (simp add: browsers_children)
  have r: "resolvable browsers_env (clean browsers_db) ''Mozilla*''" by code_simp
  have n: "''Mozilla*'' \<noteq> []" by simp
  have m1: "re_match browsers_env (to_regex ''Mozilla*'') ?ua" by code_simp
  have m2: "re_match browsers_env (to_regex ''Mozilla/5.0*Firefox*'') ?ua" by code_simp
  have r2: "resolvable browsers_env (clean browsers_db) ''Mozilla/5.0*Firefox*''" by code_simp
  have lim: "recursion_limit browsers_env = 1000" by (simp add: browsers_env_def files_def)
  from query_most_specific[OF l c r n m1, of False]
  obtain sec a where sec: "fst (match_ua browsers_env browsers_parser ?ua) = sec"
      "sec \<in> set (leaves (clean browsers_db))"
      "\<forall>s \<in> set (leaves (clean browsers_db)).
         resolvable browsers_env (clean browsers_db) s \<longrightarrow> re_match browsers_env (to_regex s) ?ua
           \<longrightarrow> length s \<le> length sec"
      "fst (query browsers_env browsers_parser ?ua False) = Inr a"
      "get_browser_props (recursion_limit browsers_env) (clean browsers_db) sec False
         = Inr (deref (snd (query browsers_env browsers_parser ?ua False)) a)"
    by blast
  have "length ''Mozilla/5.0*Firefox*'' \<le> length sec"
    using sec(3) r2 m2 by (simp add: browsers_children)
  then have "sec = ''Mozilla/5.0*Firefox*''"
    using sec(2) by (auto simp: browsers_children)
  then show ?thesis using l c r m1 m2 sec lim by auto
qed

text \<open>
  C1 fails on the code after a second \<open>load\<close>: \<open>__match\<close> answers from the cache,
  which \<open>load\<close> never clears. After a load of \<open>old.ini\<close>, a query for
  \<open>Mozilla/5.0 Firefox/1.0\<close> and a load of \<open>new.ini\<close>, the catalog holds the pattern
  \<open>Mozilla/5.0*\<close>, which matches the string, but \<open>__match\<close> selects the shorter
  \<open>Mozilla*\<close> and \<open>query\<close> returns its properties.
\<close>

theorem stale_selection_after_reload:
  "fst (load reload_env init ''old.ini'') = None
   \<and> fst (load reload_env before_reload ''new.ini'') = None
   \<and> map_of (user_agent_regexps after_reload) ''Mozilla/5.0*'' = Some (to_regex ''Mozilla/5.0*'')
   \<and> re_match reload_env (to_regex ''Mozilla/5.0*'') ''Mozilla/5.0 Firefox/1.0''
   \<and> length ''Mozilla*'' < length ''Mozilla/5.0*''
   \<and> fst (match_ua reload_env after_reload ''Mozilla/5.0 Firefox/1.0'') = ''Mozilla*''
   \<and> fst (query reload_env after_reload ''Mozilla/5.0 Firefox/1.0'' False) = Inr 1
   \<and> deref after_reload 1 = [(''browser'', ''Mozilla'')]
   \<and> map_of (user_agent_properties after_reload) ''Mozilla/5.0*'' = Some 2
   \<and> deref after_reload 2 = [(''browser'', ''Mozilla 5'')]"
  by code_simp


lemma browsers_regexps: "user_agent_regexps browsers_parser \<noteq> []"
  by code_simp


text \<open>
  C8. On a parser loaded from a database, two calls of \<open>query\<close> with the same string
  and flag return the same: the same exception, or references to equal dictionaries
  (the first of which the second call leaves as it is). After the first call on a
  non-empty catalog the cache maps the string to what a scan of the patterns selects,
  the empty name when nothing matches, and \<open>__match\<close> answers from the cache: its
  result is that entry whatever the patterns and the \<open>re\<close> module then are, and it
  changes nothing.
\<close>

theorem query_twice:
  assumes "loaded E cp p"
      and "query E p ua safe = (r1, p1)" "query E p1 ua safe = (r2, p2)"
  shows "(case r1 of
            Inl e \<Rightarrow> r2 = Inl e
          | Inr a \<Rightarrow> (\<exists>a'. r2 = Inr a' \<and> deref p2 a' = deref p1 a \<and> deref p2 a = deref p1 a))
       \<and> (user_agent_regexps p \<noteq> [] \<longrightarrow>
            map_of (match_cache p1) ua = Some (scan E (user_agent_regexps p) ua [])
          \<and> (\<forall>E' rxs. match_ua E' (p1\<lparr>user_agent_regexps := rxs\<rparr>) ua
                = (scan E (user_agent_regexps p) ua [], p1\<lparr>user_agent_regexps := rxs\<rparr>)))"
proof (cases "check_init p")
  case (Inl e)
  then have "r1 = Inl e" "p1 = p" using assms(2) by (simp_all add: query_def)
  moreover from this have "r2 = Inl e" using assms(3) Inl by (simp add: query_def)
  moreover have "user_agent_regexps p = []" using Inl by (simp add: check_init_def split: if_splits)
  ultimately show ?thesis by simp
next
  case (Inr u)
  have c: "consistent E cp p" using assms(1) by (rule loaded_consistent)
  let ?sec = "scan E (user_agent_regexps p) ua []"
  obtain m pm where mu: "match_ua E p ua = (m, pm)" by (cases "match_ua E p ua")
  have m: "m = ?sec"
    using match_ua_scan[of p E ua] c mu by (simp add: consistent_def)
  have cached: "map_of (match_cache pm) ua = Some ?sec"
    using match_ua_cached[OF mu] m by simp
  have st: "heap pm = heap p" "user_agent_properties pm = user_agent_properties p"
      "user_agent_regexps pm = user_agent_regexps p"
    using match_ua_state[OF mu] by simp_all
  have init2: "check_init pm = Inr ()" using Inr st by (simp add: check_init_def)
  have again: "\<And>E' q. map_of (match_cache q) ua = Some ?sec \<Longrightarrow> match_ua E' q ua = (?sec, q)"
    by (simp add: match_ua_def)
  show ?thesis
  proof (cases "?sec = []")
    case True
    show ?thesis
    proof (cases safe)
      case T: True
      then have 1: "r1 = Inr (length (heap pm))" "p1 = pm\<lparr>heap := heap pm @ [[]]\<rparr>"
        using assms(2) Inr mu m True by (simp_all add: query_def)
      have c1: "map_of (match_cache p1) ua = Some ?sec" using 1 cached by simp
      have i1: "check_init p1 = Inr ()" using 1 init2 by (simp add: check_init_def)
      have 2: "r2 = Inr (length (heap p1))" "p2 = p1\<lparr>heap := heap p1 @ [[]]\<rparr>"
        using assms(3) i1 again[OF c1, of E] True T by (simp_all add: query_def)
      have "deref p2 (length (heap p1)) = deref p1 (length (heap pm))"
           "deref p2 (length (heap pm)) = deref p1 (length (heap pm))"
        using 1 2 by (simp_all add: deref_def nth_append)
      moreover have "\<forall>E' rxs. match_ua E' (p1\<lparr>user_agent_regexps := rxs\<rparr>) ua
                = (?sec, p1\<lparr>user_agent_regexps := rxs\<rparr>)"
        using c1 by (simp add: match_ua_def)
      ultimately show ?thesis using 1 2 c1 by simp
    next
      case F: False
      then have 1: "r1 = Inl (Exception (''Unknown user agent: ['' @ ua @ '']''))" "p1 = pm"
        using assms(2) Inr mu m True by (simp_all add: query_def)
      have c1: "map_of (match_cache p1) ua = Some ?sec" using 1 cached by simp
      have 2: "r2 = r1"
        using assms(3) init2 1 again[OF c1, of E] True F by (simp add: query_def)
      have "\<forall>E' rxs. match_ua E' (p1\<lparr>user_agent_regexps := rxs\<rparr>) ua
                = (?sec, p1\<lparr>user_agent_regexps := rxs\<rparr>)"
        using c1 by (simp add: match_ua_def)
      then show ?thesis using 1 2 c1 by simp
    qed
  next
    case False
    have 1: "p1 = pm"
        "r1 = (case map_of (user_agent_properties pm) ?sec of
                 None \<Rightarrow> Inl (KeyError ?sec) | Some a \<Rightarrow> Inr a)"
      using assms(2) Inr mu m False by (auto simp: query_def split: option.splits)
    have c1: "map_of (match_cache p1) ua = Some ?sec" using 1 cached by simp
    have 2: "p2 = p1" "r2 = r1"
      using assms(3) init2 1 again[OF c1, of E] False by (auto simp: query_def split: option.splits)
    have "\<forall>E' rxs. match_ua E' (p1\<lparr>user_agent_regexps := rxs\<rparr>) ua
                = (?sec, p1\<lparr>user_agent_regexps := rxs\<rparr>)"
      using c1 by (simp add: match_ua_def)
    then show ?thesis using 1 2 c1 by (auto split: sum.splits)
  qed
qed

theorem query_twice_witness:
  "loaded browsers_env (clean browsers_db) browsers_parser
   \<and> user_agent_regexps browsers_parser \<noteq> []
   \<and> fst (query browsers_env browsers_parser ''Mozilla/5.0 Firefox/1.0'' False) = Inr 1
   \<and> fst (query browsers_env
            (snd (query browsers_env browsers_parser ''Mozilla/5.0 Firefox/1.0'' False))
            ''Mozilla/5.0 Firefox/1.0'' False) = Inr 1
   \<and> map_of (match_cache (snd (query browsers_env browsers_parser ''Mozilla/5.0 Firefox/1.0'' False)))
         ''Mozilla/5.0 Firefox/1.0''
       = Some (scan browsers_env (user_agent_regexps browsers_parser) ''Mozilla/5.0 Firefox/1.0'' [])"
proof -
  let ?ua = "''Mozilla/5.0 Firefox/1.0''"
  let ?q1 = "query browsers_env browsers_parser ?ua False"
  let ?q2 = "query browsers_env (snd ?q1) ?ua False"
  have l: "loaded browsers_env (clean browsers_db) browsers_parser" by (rule browsers_loaded)
  have n: "user_agent_regexps browsers_parser \<noteq> []" by (rule browsers_regexps)
  have r1: "fst ?q1 = Inr 1" by code_simp
  have q1: "?q1 = (fst ?q1, snd ?q1)" and q2: "?q2 = (fst ?q2, snd ?q2)" by simp_all
  from query_twice[OF l q1 q2] r1 n
  have "(\<exists>a'. fst ?q2 = Inr a')" 
    and "map_of (match_cache (snd ?q1)) ?ua = Some (scan browsers_env (user_agent_regexps browsers_parser) ?ua [])"
    by auto
  moreover have "fst ?q2 = Inr 1" by code_simp
  ultimately show ?thesis using l n r1 by simp
qed

lemma load_sections_all_skip:
  "\<forall>s \<in> set xs. \<not> resolvable E cp s \<Longrightarrow> load_sections E cp xs p = (None, p)"
  by (induction xs) (simp_all add: load_section_skip)

text \<open>
  C10. When \<open>load\<close> on a new parser returns without an exception and leaves the
  catalog of patterns empty, the parser is exactly the new parser: every later
  \<open>query\<close>, for any string and flag, and \<open>get_all_user_agents\<close> raise the
  "not initialized" exception.
\<close>

theorem empty_load_uninitialized:
  assumes "load E init path = (None, p')" "user_agent_regexps p' = []"
  shows "p' = init
       \<and> query E p' ua safe =
           (Inl (Exception ''Browser properties not initialized. Must call load(..) method first.''), p')
       \<and> get_all_user_agents p' =
           Inl (Exception ''Browser properties not initialized. Must call load(..) method first.'')"
proof -
  obtain cp0 where cp0: "read_ini E path = Some cp0"
    using assms(1) by (cases "read_ini E path") (auto simp: load_def)
  let ?cp = "clean cp0"
  let ?xs = "set_iter E (leaves ?cp)"
  have ls: "load_sections E ?cp ?xs init = (None, p')"
    using load_returns[OF cp0 assms(1)] by simp
  have "\<forall>s \<in> set ?xs. \<not> resolvable E ?cp s"
  proof (intro ballI notI)
    fix s assume "s \<in> set ?xs" "resolvable E ?cp s"
    then have "map_of (user_agent_regexps p') s = Some (to_regex s)"
      using load_sections_regexps[OF ls, of s] by simp
    then show False using assms(2) by simp
  qed
  then have "load_sections E ?cp ?xs init = (None, init)" by (rule load_sections_all_skip)
  then have "p' = init" using ls by simp
  then show ?thesis using assms(2)
    by (simp add: query_def check_init_def get_all_user_agents_def)
qed

theorem empty_load_uninitialized_witness:
  "load (files [(''browscap.ini'', orphan_db)]) init ''browscap.ini'' = (None, init)
   \<and> user_agent_regexps init = []
   \<and> leaves (clean orphan_db) = [''Opera/9.*'']
   \<and> query (files [(''browscap.ini'', orphan_db)]) init ''Opera/9.00 (X11; Linux i686; U; en)'' True =
       (Inl (Exception ''Browser properties not initialized. Must call load(..) method first.''), init)
   \<and> get_all_user_agents init =
       Inl (Exception ''Browser properties not initialized. Must call load(..) method first.'')"
proof -
  have l: "load (files [(''browscap.ini'', orphan_db)]) init ''browscap.ini'' = (None, init)"
    by code_simp
  have r: "user_agent_regexps init = []" by (simp add: init_def)
  have c: "leaves (clean orphan_db) = [''Opera/9.*'']" by code_simp
  from empty_load_uninitialized[OF l r, of "''Opera/9.00 (X11; Linux i686; U; en)''" True] l r c
  show ?thesis by simp
qed












text \<open>
  C3, as the code has it. A \<open>load\<close> that returns, on any parser, has computed the
  leaf sections of the new database in its first loop; it keeps the store,
  adds or overwrites the patterns and properties of the leaf sections of the new
  database whose resolution succeeds, and leaves every other entry of the catalog as
  it was: the entries of an earlier load that the new database does not overwrite
  stay in the catalog.
\<close>

theorem reload_merges:
  assumes "read_ini E path = Some cp0" "load E p path = (None, p')"
  shows "child_sections (clean cp0) = Inr (leaves (clean cp0))
       \<and> (\<exists>ext. heap p' = heap p @ ext)
       \<and> (\<forall>s. map_of (user_agent_regexps p') s =
               (if s \<in> set (leaves (clean cp0)) \<and> resolvable E (clean cp0) s
                then Some (to_regex s) else map_of (user_agent_regexps p) s))
       \<and> (\<forall>s. if s \<in> set (leaves (clean cp0)) \<and> resolvable E (clean cp0) s
               then (\<exists>a. map_of (user_agent_properties p') s = Some a
                       \<and> get_browser_props (recursion_limit E) (clean cp0) s False
                           = Inr (deref p' a))
               else map_of (user_agent_properties p') s = map_of (user_agent_properties p) s)"
proof -
  let ?cp = "clean cp0"
  have ch: "child_sections ?cp = Inr (leaves ?cp)"
    and ls: "load_sections E ?cp (set_iter E (leaves ?cp)) p = (None, p')"
    using load_returns[OF assms] by simp_all
  have h: "\<exists>ext. heap p' = heap p @ ext" using ls by (rule load_sections_heap)
  have rx: "\<forall>s. map_of (user_agent_regexps p') s =
               (if s \<in> set (leaves ?cp) \<and> resolvable E ?cp s
                then Some (to_regex s) else map_of (user_agent_regexps p) s)"
    using load_sections_regexps[OF ls] by (simp add: set_iter_set)
  have pr: "\<forall>s. if s \<in> set (leaves ?cp) \<and> resolvable E ?cp s
               then (\<exists>a. map_of (user_agent_properties p') s = Some a
                       \<and> get_browser_props (recursion_limit E) ?cp s False = Inr (deref p' a))
               else map_of (user_agent_properties p') s = map_of (user_agent_properties p) s"
  proof
    fix s
    show "if s \<in> set (leaves ?cp) \<and> resolvable E ?cp s
               then (\<exists>a. map_of (user_agent_properties p') s = Some a
                       \<and> get_browser_props (recursion_limit E) ?cp s False = Inr (deref p' a))
               else map_of (user_agent_properties p') s = map_of (user_agent_properties p) s"
      using load_sections_props[OF ls, of s] by (auto simp: set_iter_set deref_def)
  qed
  show ?thesis using ch h rx pr by blast
qed

text \<open>
  C3, as the claim states it, fails: after a load of \<open>old.ini\<close>, a query and a load of
  \<open>new.ini\<close>, the pattern \<open>Lynx*\<close>, which only the old database has, still matches,
  and the string queried before the reload gets its cached selection \<open>Mozilla*\<close>
  although a scan of the catalog selects the pattern \<open>Mozilla/5.0*\<close> of the new
  database.
\<close>

theorem reload_merges_counterexample:
  "fst (load reload_env before_reload ''new.ini'') = None
   \<and> ''Lynx*'' \<notin> set (cp_sections new_db)
   \<and> ''Mozilla*'' \<notin> set (cp_sections new_db)
   \<and> fst (query reload_env after_reload ''Lynx/2.8.5'' False) = Inr 0
   \<and> deref after_reload 0 = [(''browser'', ''Lynx'')]
   \<and> map_of (match_cache after_reload) ''Mozilla/5.0 Firefox/1.0'' = Some ''Mozilla*''
   \<and> fst (match_ua reload_env after_reload ''Mozilla/5.0 Firefox/1.0'') = ''Mozilla*''
   \<and> scan reload_env (user_agent_regexps after_reload) ''Mozilla/5.0 Firefox/1.0'' [] = ''Mozilla/5.0*''"
  by code_simp

theorem reload_merges_witness:
  "read_ini reload_env ''new.ini'' = Some new_db
   \<and> load reload_env before_reload ''new.ini'' = (None, after_reload)
   \<and> map_of (user_agent_regexps before_reload) ''Lynx*'' = Some (to_regex ''Lynx*'')
   \<and> map_of (user_agent_regexps after_reload) ''Lynx*'' = Some (to_regex ''Lynx*'')
   \<and> map_of (user_agent_properties after_reload) ''Lynx*''
       = map_of (user_agent_properties before_reload) ''Lynx*''
   \<and> map_of (user_agent_regexps after_reload) ''Mozilla/5.0*'' = Some (to_regex ''Mozilla/5.0*'')"
proof -
  have f: "read_ini reload_env ''new.ini'' = Some new_db" by (simp add: reload_env_def files_def)
  have "fst (load reload_env before_reload ''new.ini'') = None" by code_simp
  then have l: "load reload_env before_reload ''new.ini'' = (None, after_reload)"
    by (simp add: after_reload_def prod_eq_iff)
  have ch: "leaves (clean new_db) = [''Mozilla/5.0*'']" by code_simp
  have r: "resolvable reload_env (clean new_db) ''Mozilla/5.0*''" by code_simp
  have old: "map_of (user_agent_regexps before_reload) ''Lynx*'' = Some (to_regex ''Lynx*'')"
    by code_simp
  note th = reload_merges[OF f l]
  have "map_of (user_agent_regexps after_reload) ''Lynx*''
      = map_of (user_agent_regexps before_reload) ''Lynx*''"
    using th by (simp add: ch)
  moreover have "map_of (user_agent_properties after_reload) ''Lynx*''
      = map_of (user_agent_properties before_reload) ''Lynx*''"
  proof -
    have "if ''Lynx*'' \<in> set (leaves (clean new_db)) \<and> resolvable reload_env (clean new_db) ''Lynx*''
          then (\<exists>a. map_of (user_agent_properties after_reload) ''Lynx*'' = Some a
                  \<and> get_browser_props (recursion_limit reload_env) (clean new_db) ''Lynx*'' False
                      = Inr (deref after_reload a))
          else map_of (user_agent_properties after_reload) ''Lynx*''
                 = map_of (user_agent_properties before_reload) ''Lynx*''"
      using th by blast
    then show ?thesis by (simp add: ch)
  qed
  moreover have "map_of (user_agent_regexps after_reload) ''Mozilla/5.0*'' = Some (to_regex ''Mozilla/5.0*'')"
    using th r by (simp add: ch)
  ultimately show ?thesis using f l old by simp
qed

text \<open>
  C7 fails on the code: \<open>query\<close> returns the reference that the catalog holds, not a
  copy. After the caller stores a key through the returned reference, a second query
  for the same string returns the changed value.
\<close>

theorem query_result_is_stored_object:
  "fst (query browsers_env browsers_parser ''Mozilla/5.0 Firefox/1.0'' False) = Inr 1
   \<and> map_of (deref (snd (query browsers_env browsers_parser ''Mozilla/5.0 Firefox/1.0'' False)) 1)
        ''browser'' = Some ''Firefox''
   \<and> fst (query browsers_env
            (setitem (snd (query browsers_env browsers_parser ''Mozilla/5.0 Firefox/1.0'' False))
               1 ''browser'' ''Changed'')
            ''Mozilla/5.0 Firefox/1.0'' False) = Inr 1
   \<and> map_of (deref (snd (query browsers_env
            (setitem (snd (query browsers_env browsers_parser ''Mozilla/5.0 Firefox/1.0'' False))
               1 ''browser'' ''Changed'')
            ''Mozilla/5.0 Firefox/1.0'' False)) 1) ''browser'' = Some ''Changed''"
  by code_simp

end
